theory Spec2Isabelle
  imports Complex_Main
begin

section \<open>Bytes, memory and the get area of a stream buffer\<close>

text \<open>
  A C++ \<^verbatim>\<open>char\<close> is an Isabelle \<^typ>\<open>char\<close> (one byte). The storage a
  \<^verbatim>\<open>StreamBuf<char>\<close> points into is a list of bytes; a pointer into it is the
  index of the byte. Reading an index that the storage does not have is undefined
  behaviour in C++ and the fault \<open>OutOfBounds\<close> here.
\<close>

datatype fault = OutOfBounds

definition deref :: "char list \<Rightarrow> nat \<Rightarrow> fault + char" where
  "deref m a = (if a < length m then Inr (m ! a) else Inl OutOfBounds)"

text \<open>\<^verbatim>\<open>static constexpr int Eof = -1\<close>, also \<^verbatim>\<open>traits_type::eof()\<close>.\<close>

definition Eof :: int where
  "Eof = - 1"

text \<open>\<^verbatim>\<open>traits_type::to_int_type\<close>: the byte as an unsigned value.\<close>

definition to_int_type :: "char \<Rightarrow> int" where
  "to_int_type c = of_char c"

text \<open>
  The implicit conversion of a plain \<^verbatim>\<open>char\<close> to \<^verbatim>\<open>int\<close>; plain
  \<^verbatim>\<open>char\<close> is signed (x86-64), so bytes from 128 on become negative.
\<close>

definition char_to_int :: "char \<Rightarrow> int" where
  "char_to_int c = (if (of_char c :: int) < 128 then of_char c else of_char c - 256)"

text \<open>
  The get area of \<^verbatim>\<open>std::basic_streambuf\<close>: the three pointers \<^verbatim>\<open>eback()\<close>,
  \<^verbatim>\<open>gptr()\<close>, \<^verbatim>\<open>egptr()\<close> (start, current, end of the window), and the storage
  they point into.
\<close>

record StreamBuf =
  mem :: "char list"
  eback :: nat
  gptr :: nat
  egptr :: nat

text \<open>The invariant of the data model: start \<open>\<le>\<close> current \<open>\<le>\<close> end, inside the storage.\<close>

definition window_ok :: "'a StreamBuf_scheme \<Rightarrow> bool" where
  "window_ok b = (eback b \<le> gptr b \<and> gptr b \<le> egptr b \<and> egptr b \<le> length (mem b))"

definition setArea :: "nat \<Rightarrow> nat \<Rightarrow> nat \<Rightarrow> 'a StreamBuf_scheme \<Rightarrow> 'a StreamBuf_scheme" where
  "setArea begin current end' b = b\<lparr>eback := begin, gptr := current, egptr := end'\<rparr>"

definition begptr :: "'a StreamBuf_scheme \<Rightarrow> nat" where
  "begptr b = eback b"

definition curptr :: "'a StreamBuf_scheme \<Rightarrow> nat" where
  "curptr b = gptr b"

definition endptr :: "'a StreamBuf_scheme \<Rightarrow> nat" where
  "endptr b = egptr b"

text \<open>\<^verbatim>\<open>position()\<close>: \<^verbatim>\<open>gptr() - eback()\<close>.\<close>

definition position :: "'a StreamBuf_scheme \<Rightarrow> nat" where
  "position b = gptr b - eback b"

text \<open>
  \<^verbatim>\<open>in_avail()\<close>: \<^verbatim>\<open>egptr() - gptr()\<close> when a read position is available, otherwise
  \<^verbatim>\<open>showmanyc()\<close>, which no class here overrides and which returns 0.
\<close>

definition in_avail :: "'a StreamBuf_scheme \<Rightarrow> nat" where
  "in_avail b = (if gptr b < egptr b then egptr b - gptr b else 0)"

text \<open>
  \<^verbatim>\<open>sgetc()\<close>: the byte at \<^verbatim>\<open>gptr()\<close>, or the result of \<^verbatim>\<open>underflow()\<close> (not
  overridden: \<^verbatim>\<open>eof()\<close>) when the get area is exhausted.
\<close>

definition sgetc :: "'a StreamBuf_scheme \<Rightarrow> fault + int" where
  "sgetc b =
     (if gptr b < egptr b then
        (case deref (mem b) (gptr b) of
           Inl e \<Rightarrow> Inl e
         | Inr c \<Rightarrow> Inr (to_int_type c))
      else Inr Eof)"

text \<open>
  \<^verbatim>\<open>sbumpc()\<close>: reads the byte at \<^verbatim>\<open>gptr()\<close> and advances by one; on an exhausted
  get area it is \<^verbatim>\<open>uflow()\<close>, which is not overridden and returns \<^verbatim>\<open>eof()\<close>
  without moving.
\<close>

definition sbumpc :: "'a StreamBuf_scheme \<Rightarrow> fault + (int \<times> 'a StreamBuf_scheme)" where
  "sbumpc b =
     (if gptr b < egptr b then
        (case deref (mem b) (gptr b) of
           Inl e \<Rightarrow> Inl e
         | Inr c \<Rightarrow> Inr (to_int_type c, b\<lparr>gptr := gptr b + 1\<rparr>))
      else Inr (Eof, b))"

text \<open>\<^verbatim>\<open>StreamBuf::snext()\<close> (stream.h, lines 49 to 56).\<close>

definition snext :: "'a StreamBuf_scheme \<Rightarrow> fault + int" where
  "snext b =
     (if gptr b = egptr b then Inr Eof
      else
        (case deref (mem b) (gptr b + 1) of
           Inl e \<Rightarrow> Inl e
         | Inr c \<Rightarrow> Inr (char_to_int c)))"

section \<open>The cursor\<close>

text \<open>
  A \<^verbatim>\<open>StreamCursor\<close> holds only the pointer to its buffer: every operation of the
  cursor is an operation on the buffer's state, which is passed and returned.
\<close>

text \<open>The loop of \<^verbatim>\<open>StreamCursor::advance\<close>: \<open>count\<close> calls of \<^verbatim>\<open>sbumpc()\<close>.\<close>

fun sbumpc_loop :: "nat \<Rightarrow> 'a StreamBuf_scheme \<Rightarrow> fault + 'a StreamBuf_scheme" where
  "sbumpc_loop 0 b = Inr b"
| "sbumpc_loop (Suc n) b =
     (case sbumpc b of
        Inl e \<Rightarrow> Inl e
      | Inr (c, b') \<Rightarrow> sbumpc_loop n b')"

definition advance :: "nat \<Rightarrow> 'a StreamBuf_scheme \<Rightarrow> fault + (bool \<times> 'a StreamBuf_scheme)" where
  "advance count b =
     (if count > in_avail b then Inr (False, b)
      else
        (case sbumpc_loop count b of
           Inl e \<Rightarrow> Inl e
         | Inr b' \<Rightarrow> Inr (True, b')))"

definition remaining :: "'a StreamBuf_scheme \<Rightarrow> nat" where
  "remaining b = in_avail b"

definition eof :: "'a StreamBuf_scheme \<Rightarrow> bool" where
  "eof b = (remaining b = 0)"

text \<open>
  \<^verbatim>\<open>StreamCursor::next()\<close> (stream.cc, lines 56 to 62), named \<open>next_byte\<close>
  since \<open>next\<close> is a keyword of the proof language.
\<close>

definition next_byte :: "'a StreamBuf_scheme \<Rightarrow> fault + int" where
  "next_byte b = (if in_avail b < 1 then Inr Eof else snext b)"

text \<open>
  \<^verbatim>\<open>StreamCursor::current()\<close>: the result of \<^verbatim>\<open>sgetc()\<close> narrowed to
  \<^verbatim>\<open>char\<close> (at the end of the window, the byte 0xFF of \<^verbatim>\<open>eof()\<close>).
\<close>

definition current :: "'a StreamBuf_scheme \<Rightarrow> fault + char" where
  "current b =
     (case sgetc b of
        Inl e \<Rightarrow> Inl e
      | Inr i \<Rightarrow> Inr (char_of i))"

text \<open>\<^verbatim>\<open>StreamCursor::offset()\<close>: the raw pointer at the current position.\<close>

definition offset :: "'a StreamBuf_scheme \<Rightarrow> nat" where
  "offset b = curptr b"

section \<open>The Revert guard\<close>

text \<open>
  \<^verbatim>\<open>StreamCursor::Revert\<close> (stream.h, lines 217 to 246): the constructor copies the
  three pointers of the cursor's buffer, the destructor puts them back unless
  \<^verbatim>\<open>ignore()\<close> was called. The members \<^verbatim>\<open>eback\<close>, \<^verbatim>\<open>gptr\<close> and
  \<^verbatim>\<open>egptr\<close> carry the prefix \<open>r_\<close>, the names being taken by the buffer.
\<close>

record Revert =
  r_eback :: nat
  r_gptr :: nat
  r_egptr :: nat
  active :: bool

definition Revert_init :: "'a StreamBuf_scheme \<Rightarrow> Revert" where
  "Revert_init b = \<lparr>r_eback = begptr b, r_gptr = curptr b, r_egptr = endptr b, active = True\<rparr>"

definition revert :: "Revert \<Rightarrow> 'a StreamBuf_scheme \<Rightarrow> 'a StreamBuf_scheme" where
  "revert r b = setArea (r_eback r) (r_gptr r) (r_egptr r) b"

definition ignore :: "Revert \<Rightarrow> Revert" where
  "ignore r = r\<lparr>active := False\<rparr>"

text \<open>The destructor \<^verbatim>\<open>~Revert()\<close>.\<close>

definition Revert_destroy :: "Revert \<Rightarrow> 'a StreamBuf_scheme \<Rightarrow> 'a StreamBuf_scheme" where
  "Revert_destroy r b = (if active r then revert r b else b)"

text \<open>A sequence of \<^verbatim>\<open>advance\<close> calls, whatever each of them returns.\<close>

fun advances :: "nat list \<Rightarrow> 'a StreamBuf_scheme \<Rightarrow> fault + 'a StreamBuf_scheme" where
  "advances [] b = Inr b"
| "advances (n # ns) b =
     (case advance n b of
        Inl e \<Rightarrow> Inl e
      | Inr (ok, b') \<Rightarrow> advances ns b')"

section \<open>The matchers\<close>

datatype CaseSensitivity = Sensitive | Insensitive

text \<open>\<^verbatim>\<open>std::tolower\<close> in the "C" locale: only the letters A to Z change.\<close>

definition tolower :: "int \<Rightarrow> int" where
  "tolower ch = (if 65 \<le> ch \<and> ch \<le> 90 then ch + 32 else ch)"

text \<open>
  \<^verbatim>\<open>std::tolower(c)\<close> stored in a \<^verbatim>\<open>char\<close>: the argument is promoted to
  \<^verbatim>\<open>int\<close>, the result narrowed.
\<close>

definition tolower_char :: "char \<Rightarrow> char" where
  "tolower_char c = char_of (tolower (char_to_int c))"

text \<open>
  \<^verbatim>\<open>memcmp\<close> of \<open>n\<close> bytes, the first operand at address \<open>a\<close> of the storage, the
  second at index \<open>i\<close> of the caller's bytes: 0 when they are equal, else the sign of
  the first difference (bytes compared as unsigned).
\<close>

fun memcmp :: "char list \<Rightarrow> nat \<Rightarrow> char list \<Rightarrow> nat \<Rightarrow> nat \<Rightarrow> fault + int" where
  "memcmp m a pat i 0 = Inr 0"
| "memcmp m a pat i (Suc n) =
     (case deref m a of
        Inl e \<Rightarrow> Inl e
      | Inr x \<Rightarrow>
          (case deref pat i of
             Inl e \<Rightarrow> Inl e
           | Inr y \<Rightarrow>
               if x = y then memcmp m (a + 1) pat (i + 1) n
               else if (of_char x :: nat) < of_char y then Inr (- 1)
               else Inr 1))"

text \<open>\<^verbatim>\<open>match_raw\<close> (stream.cc, lines 99 to 110).\<close>

definition match_raw ::
  "char list \<Rightarrow> nat \<Rightarrow> 'a StreamBuf_scheme \<Rightarrow> fault + (bool \<times> 'a StreamBuf_scheme)" where
  "match_raw buf len b =
     (if remaining b < len then Inr (False, b)
      else
        (case memcmp (mem b) (offset b) buf 0 len of
           Inl e \<Rightarrow> Inl e
         | Inr r \<Rightarrow>
             if r = 0 then
               (case advance len b of
                  Inl e \<Rightarrow> Inl e
                | Inr (ok, b') \<Rightarrow> Inr (True, b'))
             else Inr (False, b)))"

text \<open>\<^verbatim>\<open>match_literal\<close> (stream.cc, lines 112 to 126).\<close>

definition match_literal ::
  "char \<Rightarrow> 'a StreamBuf_scheme \<Rightarrow> CaseSensitivity \<Rightarrow> fault + (bool \<times> 'a StreamBuf_scheme)" where
  "match_literal c b cs =
     (if eof b then Inr (False, b)
      else
        (case current b of
           Inl e \<Rightarrow> Inl e
         | Inr cur \<Rightarrow>
             let lhs = (if cs = Sensitive then c else tolower_char c);
                 rhs = (if cs = Insensitive then cur else tolower_char cur)
             in if lhs = rhs then
                  (case advance 1 b of
                     Inl e \<Rightarrow> Inl e
                   | Inr (ok, b') \<Rightarrow> Inr (True, b'))
                else Inr (False, b)))"

text \<open>
  The lambda \<^verbatim>\<open>find\<close> of \<^verbatim>\<open>match_until\<close>, a loop over the targets (the
  name is primed, \<open>find\<close> being a function on lists).
\<close>

fun find' :: "CaseSensitivity \<Rightarrow> char list \<Rightarrow> char \<Rightarrow> bool" where
  "find' cs [] val = False"
| "find' cs (c # chars) val =
     (let lhs = (if cs = Sensitive then c else tolower_char c);
          rhs = (if cs = Insensitive then val else tolower_char val)
      in if lhs = rhs then True else find' cs chars val)"

lemma advance_one_remaining:
  "advance (Suc 0) b = Inr (ok, b') \<Longrightarrow> \<not> eof b \<Longrightarrow> remaining b' < remaining b"
  by (auto simp: advance_def eof_def remaining_def in_avail_def sbumpc_def
      split: if_splits sum.splits)

text \<open>The \<^verbatim>\<open>while (!cursor.eof())\<close> loop of \<^verbatim>\<open>match_until\<close>.\<close>

function match_until_loop ::
  "char list \<Rightarrow> CaseSensitivity \<Rightarrow> 'a StreamBuf_scheme \<Rightarrow> fault + (bool \<times> 'a StreamBuf_scheme)" where
  "match_until_loop chars cs b =
     (if \<not> eof b then
        (case current b of
           Inl e \<Rightarrow> Inl e
         | Inr c \<Rightarrow>
             if find' cs chars c then Inr (True, b)
             else
               (case advance 1 b of
                  Inl e \<Rightarrow> Inl e
                | Inr (ok, b') \<Rightarrow> match_until_loop chars cs b'))
      else Inr (False, b))"
  by pat_completeness auto
termination
  by (relation "measure (\<lambda>(chars, cs, b). remaining b)")
     (auto dest: advance_one_remaining)

text \<open>\<^verbatim>\<open>match_until\<close> on a set of targets (stream.cc, lines 133 to 156).\<close>

definition match_until ::
  "char list \<Rightarrow> 'a StreamBuf_scheme \<Rightarrow> CaseSensitivity \<Rightarrow> fault + (bool \<times> 'a StreamBuf_scheme)" where
  "match_until chars b cs = (if eof b then Inr (False, b) else match_until_loop chars cs b)"

text \<open>\<^verbatim>\<open>match_until\<close> on one target (stream.cc, lines 128 to 131).\<close>

definition match_until_char ::
  "char \<Rightarrow> 'a StreamBuf_scheme \<Rightarrow> CaseSensitivity \<Rightarrow> fault + (bool \<times> 'a StreamBuf_scheme)" where
  "match_until_char c b cs = match_until [c] b cs"

text \<open>
  \<^verbatim>\<open>match_double\<close> (stream.cc, lines 158 to 168). \<^verbatim>\<open>strtod\<close> is the C library's
  and a parameter here (its model follows): given the storage and the address of the
  text it returns the value and the number of characters it consumed
  (\<^verbatim>\<open>end - cursor.offset()\<close>), or the fault of reading outside the storage. The cell
  \<^verbatim>\<open>*val\<close> is passed in and returned.
\<close>

definition match_double ::
  "(char list \<Rightarrow> nat \<Rightarrow> fault + ('v \<times> nat)) \<Rightarrow> 'v \<Rightarrow> 'a StreamBuf_scheme \<Rightarrow>
     fault + (bool \<times> 'v \<times> 'a StreamBuf_scheme)" where
  "match_double strtod val b =
     (case strtod (mem b) (offset b) of
        Inl e \<Rightarrow> Inl e
      | Inr (v, consumed) \<Rightarrow>
          if consumed = 0 then Inr (False, v, b)
          else
            (case advance consumed b of
               Inl e \<Rightarrow> Inl e
             | Inr (ok, b') \<Rightarrow> Inr (True, v, b')))"

section \<open>The C library's \<^verbatim>\<open>strtod\<close>\<close>

text \<open>
  \<^verbatim>\<open>strtod\<close> as ISO C describes it (7.22.1.3), in the "C" locale. The text starts
  at address \<open>a\<close> of the storage and has no length: the function reads until a
  character that cannot continue the number, and reading on past the storage is the
  fault. It skips white space (as \<^verbatim>\<open>isspace\<close>), takes an optional sign, and then
  the longest subject sequence of one of the forms
  \<^item> decimal digits with an optional point, then an optional exponent
    (\<open>e\<close>, optional sign, digits);
  \<^item> \<open>0x\<close>, hexadecimal digits with an optional point, then an optional binary
    exponent (\<open>p\<close>, optional sign, decimal digits);
  \<^item> \<open>INF\<close> or \<open>INFINITY\<close>, in any case;
  \<^item> \<open>NAN\<close>, in any case, optionally followed by digits, letters and underscores in
    parentheses.
  \<open>strtod_parse\<close> gives what the subject sequence denotes, exactly, and the number
  of characters consumed from \<open>a\<close> on; when no conversion is performed these are
  zero and 0. The \<^verbatim>\<open>double\<close> that \<open>strtod\<close> returns is the image of that exact
  value under the rounding \<open>rnd\<close> of the platform (which also decides overflow
  and underflow): a parameter.
\<close>

text \<open>
  What a subject sequence denotes: a sign with a magnitude, an infinity with its sign,
  or a NaN with its sign.
\<close>

datatype parsed = Finite bool rat | Infinite bool | NotANumber bool

definition isspace :: "char \<Rightarrow> bool" where
  "isspace c = (c = CHR '' '' \<or> (9::nat) \<le> of_char c \<and> of_char c \<le> (13::nat))"

definition isdigit :: "char \<Rightarrow> bool" where
  "isdigit c = ((48::nat) \<le> of_char c \<and> of_char c \<le> (57::nat))"

definition digits_value :: "char list \<Rightarrow> nat" where
  "digits_value ds = foldl (\<lambda>acc d. 10 * acc + (of_char d - 48)) 0 ds"

definition isxdigit :: "char \<Rightarrow> bool" where
  "isxdigit c =
     (isdigit c \<or> (97::nat) \<le> of_char c \<and> of_char c \<le> (102::nat) \<or>
      (65::nat) \<le> of_char c \<and> of_char c \<le> (70::nat))"

definition isalpha :: "char \<Rightarrow> bool" where
  "isalpha c =
     ((97::nat) \<le> of_char c \<and> of_char c \<le> (122::nat) \<or>
      (65::nat) \<le> of_char c \<and> of_char c \<le> (90::nat))"

definition isnchar :: "char \<Rightarrow> bool" where
  "isnchar c = (isdigit c \<or> isalpha c \<or> c = CHR ''_'')"

definition xdigit_value :: "char \<Rightarrow> nat" where
  "xdigit_value c =
     (if isdigit c then of_char c - 48
      else if (97::nat) \<le> of_char c then of_char c - 87
      else of_char c - 55)"

definition xdigits_value :: "char list \<Rightarrow> nat" where
  "xdigits_value ds = foldl (\<lambda>acc d. 16 * acc + xdigit_value d) 0 ds"

text \<open>
  Comparing the text with a lower-case word, byte by byte and ignoring case, up to the
  first difference.
\<close>

fun match_word :: "char list \<Rightarrow> char list \<Rightarrow> fault + bool" where
  "match_word [] txt = Inr True"
| "match_word (k # ks) [] = Inl OutOfBounds"
| "match_word (k # ks) (c # cs) = (if tolower_char c = k then match_word ks cs else Inr False)"

text \<open>
  Digits with an optional point: the digits before the point, whether there is a point,
  the digits after it, and the rest of the text, which starts with the character that
  ended the scan.
\<close>

definition mantissa ::
  "(char \<Rightarrow> bool) \<Rightarrow> char list \<Rightarrow> fault + (char list \<times> bool \<times> char list \<times> char list)" where
  "mantissa dig r =
     (case dropWhile dig r of
        [] \<Rightarrow> Inl OutOfBounds
      | c # t \<Rightarrow>
          if c = CHR ''.'' then
            (case dropWhile dig t of
               [] \<Rightarrow> Inl OutOfBounds
             | d # u \<Rightarrow> Inr (takeWhile dig r, True, takeWhile dig t, d # u))
          else Inr (takeWhile dig r, False, [], c # t))"

text \<open>
  The optional exponent part after the marker \<open>mark\<close> (\<open>e\<close> or \<open>p\<close>): its value
  and the number of characters it takes, both 0 when there is no well-formed exponent.
\<close>

definition exponent :: "char \<Rightarrow> char list \<Rightarrow> fault + (int \<times> nat)" where
  "exponent mark r =
     (case r of
        [] \<Rightarrow> Inl OutOfBounds
      | c # t \<Rightarrow>
          if tolower_char c \<noteq> mark then Inr (0, 0)
          else
            (case t of
               [] \<Rightarrow> Inl OutOfBounds
             | s # u \<Rightarrow>
                 let has_sign = (s = CHR ''-'' \<or> s = CHR ''+'');
                     ds = (if has_sign then u else s # u)
                 in case dropWhile isdigit ds of
                      [] \<Rightarrow> Inl OutOfBounds
                    | d # v \<Rightarrow>
                        if takeWhile isdigit ds = [] then Inr (0, 0)
                        else
                          Inr ((if s = CHR ''-'' then - 1 else 1) *
                                 int (digits_value (takeWhile isdigit ds)),
                               1 + (if has_sign then 1 else 0) +
                                 length (takeWhile isdigit ds))))"

definition scale :: "rat \<Rightarrow> rat \<Rightarrow> int \<Rightarrow> rat" where
  "scale x base e = (if e < 0 then x / base ^ nat (- e) else x * base ^ nat e)"

text \<open>The forms \<open>INF\<close>, \<open>INFINITY\<close> and \<open>NAN\<close>.\<close>

definition special :: "bool \<Rightarrow> char list \<Rightarrow> fault + (parsed \<times> nat) option" where
  "special neg r =
     (case match_word ''inf'' r of
        Inl e \<Rightarrow> Inl e
      | Inr True \<Rightarrow>
          (case match_word ''inity'' (drop 3 r) of
             Inl e \<Rightarrow> Inl e
           | Inr long \<Rightarrow> Inr (Some (Infinite neg, if long then 8 else 3)))
      | Inr False \<Rightarrow>
          (case match_word ''nan'' r of
             Inl e \<Rightarrow> Inl e
           | Inr False \<Rightarrow> Inr None
           | Inr True \<Rightarrow>
               (case drop 3 r of
                  [] \<Rightarrow> Inl OutOfBounds
                | c # t \<Rightarrow>
                    if c = CHR ''('' then
                      (case dropWhile isnchar t of
                         [] \<Rightarrow> Inl OutOfBounds
                       | d # u \<Rightarrow>
                           if d = CHR '')''
                           then Inr (Some (NotANumber neg, 5 + length (takeWhile isnchar t)))
                           else Inr (Some (NotANumber neg, 3)))
                    else Inr (Some (NotANumber neg, 3)))))"

text \<open>
  The hexadecimal form; \<open>0x\<close> with no hexadecimal digit after it is not one, and the
  \<open>0\<close> is then a decimal number.
\<close>

definition hexadecimal :: "bool \<Rightarrow> char list \<Rightarrow> fault + (parsed \<times> nat) option" where
  "hexadecimal neg r =
     (case r of
        c0 # cx # t \<Rightarrow>
          if c0 = CHR ''0'' \<and> tolower_char cx = CHR ''x'' then
            (case mantissa isxdigit t of
               Inl e \<Rightarrow> Inl e
             | Inr (ip, has_dot, fp, r') \<Rightarrow>
                 if ip = [] \<and> fp = [] then Inr None
                 else
                   (case exponent CHR ''p'' r' of
                      Inl e \<Rightarrow> Inl e
                    | Inr (e, ne) \<Rightarrow>
                        Inr (Some
                          (Finite neg
                             (scale (of_nat (xdigits_value (ip @ fp)) / 16 ^ length fp) 2 e),
                           2 + length ip + (if has_dot then 1 + length fp else 0) + ne))))
          else Inr None
      | _ \<Rightarrow> Inr None)"

text \<open>The decimal form.\<close>

definition decimal :: "bool \<Rightarrow> char list \<Rightarrow> fault + (parsed \<times> nat) option" where
  "decimal neg r =
     (case mantissa isdigit r of
        Inl e \<Rightarrow> Inl e
      | Inr (ip, has_dot, fp, r') \<Rightarrow>
          if ip = [] \<and> fp = [] then Inr None
          else
            (case exponent CHR ''e'' r' of
               Inl e \<Rightarrow> Inl e
             | Inr (e, ne) \<Rightarrow>
                 Inr (Some
                   (Finite neg
                      (scale (of_nat (digits_value (ip @ fp)) / 10 ^ length fp) 10 e),
                    length ip + (if has_dot then 1 + length fp else 0) + ne))))"

text \<open>The subject sequence after the sign, if there is one.\<close>

definition subject :: "bool \<Rightarrow> char list \<Rightarrow> fault + (parsed \<times> nat) option" where
  "subject neg r =
     (case special neg r of
        Inl e \<Rightarrow> Inl e
      | Inr (Some p) \<Rightarrow> Inr (Some p)
      | Inr None \<Rightarrow>
          (case hexadecimal neg r of
             Inl e \<Rightarrow> Inl e
           | Inr (Some p) \<Rightarrow> Inr (Some p)
           | Inr None \<Rightarrow> decimal neg r))"

text \<open>
  The whole text: when there is no subject sequence nothing is consumed, not even the
  white space, and the value is zero.
\<close>

definition strtod_parse :: "char list \<Rightarrow> nat \<Rightarrow> fault + (parsed \<times> nat)" where
  "strtod_parse m a =
     (case dropWhile isspace (drop a m) of
        [] \<Rightarrow> Inl OutOfBounds
      | c # t \<Rightarrow>
          let has_sign = (c = CHR ''-'' \<or> c = CHR ''+'')
          in case subject (c = CHR ''-'') (if has_sign then t else c # t) of
               Inl e \<Rightarrow> Inl e
             | Inr None \<Rightarrow> Inr (Finite False 0, 0)
             | Inr (Some (v, n)) \<Rightarrow>
                 Inr (v, length (takeWhile isspace (drop a m)) + (if has_sign then 1 else 0) + n))"

text \<open>\<^verbatim>\<open>strtod(text, &end)\<close>: the rounded value and \<^verbatim>\<open>end - text\<close>.\<close>

definition strtod :: "(parsed \<Rightarrow> 'd) \<Rightarrow> char list \<Rightarrow> nat \<Rightarrow> fault + ('d \<times> nat)" where
  "strtod rnd m a =
     (case strtod_parse m a of
        Inl e \<Rightarrow> Inl e
      | Inr (v, n) \<Rightarrow> Inr (rnd v, n))"

section \<open>The fixed-capacity appendable buffer\<close>

text \<open>
  \<^verbatim>\<open>size_t\<close> has 64 bits: its arithmetic is modulo \<open>SIZE_MOD\<close>.
\<close>

definition SIZE_MOD :: nat where
  "SIZE_MOD = 2 ^ 64"

text \<open>
  \<^verbatim>\<open>memcpy(dst + a, src, n)\<close>: the storage after the copy, or the fault of a copy
  that leaves the destination or the source.
\<close>

definition memcpy :: "char list \<Rightarrow> nat \<Rightarrow> char list \<Rightarrow> nat \<Rightarrow> fault + char list" where
  "memcpy dst a src n =
     (if length dst < a + n \<or> length src < n then Inl OutOfBounds
      else Inr (take a dst @ take n src @ drop (a + n) dst))"

text \<open>
  \<^verbatim>\<open>ArrayStreamBuf<N>\<close> (stream.h, lines 74 to 114): the member array
  \<^verbatim>\<open>bytes[N]\<close> is the storage \<open>mem\<close> of the get area, whose pointers are indices
  into it; \<open>N\<close> is the template parameter and \<open>size_bytes\<close> the member
  \<^verbatim>\<open>size\<close>.
\<close>

record ArrayStreamBuf = StreamBuf +
  N :: nat
  size_bytes :: nat

text \<open>The default constructor.\<close>

definition ArrayStreamBuf_init :: "nat \<Rightarrow> ArrayStreamBuf" where
  "ArrayStreamBuf_init n =
     \<lparr>mem = replicate n (CHR 0x00), eback = 0, gptr = 0, egptr = 0, N = n, size_bytes = 0\<rparr>"

text \<open>\<^verbatim>\<open>ArrayStreamBuf::feed\<close> (stream.h, lines 94 to 103).\<close>

definition feed :: "char list \<Rightarrow> nat \<Rightarrow> ArrayStreamBuf \<Rightarrow> fault + (bool \<times> ArrayStreamBuf)" where
  "feed data len b =
     (if (size_bytes b + len) mod SIZE_MOD \<ge> N b then Inr (False, b)
      else
        (case memcpy (mem b) (size_bytes b) data len of
           Inl e \<Rightarrow> Inl e
         | Inr bytes \<Rightarrow>
             Inr (True,
               (setArea 0 (size_bytes b) (size_bytes b + len) (b\<lparr>mem := bytes\<rparr>))
                 \<lparr>size_bytes := (size_bytes b + len) mod SIZE_MOD\<rparr>)))"

section \<open>The growable output buffer\<close>

text \<open>\<^verbatim>\<open>std::vector<char>::resize\<close>: new bytes are zero.\<close>

definition vector_resize :: "nat \<Rightarrow> char list \<Rightarrow> char list" where
  "vector_resize n xs = take n xs @ replicate (n - length xs) (CHR 0x00)"

text \<open>The assignment \<^verbatim>\<open>*p = c\<close> through a pointer into the storage.\<close>

definition store :: "char list \<Rightarrow> nat \<Rightarrow> char \<Rightarrow> fault + char list" where
  "store m a c = (if a < length m then Inr (m[a := c]) else Inl OutOfBounds)"

text \<open>\<^verbatim>\<open>traits_type::not_eof\<close>.\<close>

definition not_eof :: "int \<Rightarrow> int" where
  "not_eof ch = (if ch = Eof then 0 else ch)"

text \<open>
  \<^verbatim>\<open>NetworkStream\<close> (stream.h, lines 116 to 170): the members \<^verbatim>\<open>maxSize_\<close> and
  \<^verbatim>\<open>data_\<close> (here \<open>maxSize\<close> and \<open>data'\<close>), and the put area of the stream buffer, \<^verbatim>\<open>pptr()\<close> and
  \<^verbatim>\<open>epptr()\<close>, as offsets from \<^verbatim>\<open>&data_[0]\<close>. The get area is never set.
\<close>

record NetworkStream =
  maxSize :: nat
  data' :: "char list"
  pptr :: nat
  epptr :: nat

text \<open>\<^verbatim>\<open>NetworkStream::reserve\<close> (stream.cc, lines 25 to 32).\<close>

definition reserve :: "nat \<Rightarrow> NetworkStream \<Rightarrow> NetworkStream" where
  "reserve sz s =
     (let sz' = (if sz > maxSize s then maxSize s else sz);
          oldSize = length (data' s)
      in s\<lparr>data' := vector_resize sz' (data' s), pptr := oldSize, epptr := sz'\<rparr>)"

text \<open>The constructor \<^verbatim>\<open>NetworkStream(size, maxSize)\<close> (stream.h, lines 132 to 138).\<close>

definition NetworkStream_init :: "nat \<Rightarrow> nat \<Rightarrow> NetworkStream" where
  "NetworkStream_init sz maxSz =
     reserve sz \<lparr>maxSize = maxSz, data' = [], pptr = 0, epptr = 0\<rparr>"

text \<open>
  \<^verbatim>\<open>NetworkStream::overflow\<close> (stream.cc, lines 10 to 23); \<^verbatim>\<open>size * 2\<close> is
  \<^verbatim>\<open>size_t\<close> arithmetic.
\<close>

definition overflow :: "int \<Rightarrow> NetworkStream \<Rightarrow> fault + (int \<times> NetworkStream)" where
  "overflow ch s =
     (if ch \<noteq> Eof then
        (let sz = length (data' s)
         in if sz < maxSize s then
              (let s' = reserve ((sz * 2) mod SIZE_MOD) s
               in case store (data' s') (pptr s') (char_of ch) of
                    Inl e \<Rightarrow> Inl e
                  | Inr d \<Rightarrow> Inr (not_eof ch, s'\<lparr>data' := d, pptr := pptr s' + 1\<rparr>))
            else Inr (Eof, s))
      else Inr (Eof, s))"

text \<open>
  \<^verbatim>\<open>sputc\<close> of \<^verbatim>\<open>std::basic_streambuf\<close>, the write of one byte: into the put
  area when it has room, through \<^verbatim>\<open>overflow\<close> otherwise.
\<close>

definition sputc :: "char \<Rightarrow> NetworkStream \<Rightarrow> fault + (int \<times> NetworkStream)" where
  "sputc c s =
     (if pptr s < epptr s then
        (case store (data' s) (pptr s) c of
           Inl e \<Rightarrow> Inl e
         | Inr d \<Rightarrow> Inr (to_int_type c, s\<lparr>data' := d, pptr := pptr s + 1\<rparr>))
      else overflow (to_int_type c) s)"

text \<open>
  \<^verbatim>\<open>NetworkStream::buffer()\<close>: the store and the written length
  \<^verbatim>\<open>pptr() - &data_[0]\<close>.
\<close>

definition buffer :: "NetworkStream \<Rightarrow> char list \<times> nat" where
  "buffer s = (data' s, pptr s - 0)"

text \<open>Writing bytes one at a time, collecting what each \<open>sputc\<close> returns.\<close>

fun write_all :: "char list \<Rightarrow> NetworkStream \<Rightarrow> fault + (int list \<times> NetworkStream)" where
  "write_all [] s = Inr ([], s)"
| "write_all (c # cs) s =
     (case sputc c s of
        Inl e \<Rightarrow> Inl e
      | Inr (r, s') \<Rightarrow>
          (case write_all cs s' of
             Inl e \<Rightarrow> Inl e
           | Inr (rs, s'') \<Rightarrow> Inr (r # rs, s'')))"

text \<open>
  What holds of a \<open>NetworkStream\<close> between writes: the put area ends with the store,
  which is not empty and within \<open>maxSize\<close>; \<open>maxSize\<close> is a size a vector can
  have (\<^verbatim>\<open>max_size()\<close> is below \<open>2 ^ 63\<close>).
\<close>

definition stream_ok :: "NetworkStream \<Rightarrow> bool" where
  "stream_ok s =
     (epptr s = length (data' s) \<and> pptr s \<le> length (data' s) \<and> 1 \<le> length (data' s) \<and>
      length (data' s) \<le> maxSize s \<and> maxSize s < 2 ^ 63)"

section \<open>Example buffers\<close>

text \<open>The bytes \<^verbatim>\<open>"Host: example.com\r\n"\<close> and a cursor at position 0 over them.\<close>

definition host_line :: "char list" where
  "host_line = ''Host: example.com'' @ [CHR 0x0D, CHR 0x0A]"

definition host_buf :: StreamBuf where
  "host_buf = \<lparr>mem = host_line, eback = 0, gptr = 0, egptr = 19\<rparr>"

text \<open>
  The constructor \<^verbatim>\<open>RawStreamBuf(begin, len)\<close> (stream.h, lines 68 to 70): a window
  over the first \<open>len\<close> bytes of the caller's array \<open>bytes\<close>.
\<close>

definition RawStreamBuf :: "char list \<Rightarrow> nat \<Rightarrow> StreamBuf" where
  "RawStreamBuf bytes len = \<lparr>mem = bytes, eback = 0, gptr = 0, egptr = len\<rparr>"

text \<open>
  An \<^verbatim>\<open>ArrayStreamBuf<8>\<close> after \<^verbatim>\<open>feed("abc", 3)\<close>: three bytes written, five
  left zero.
\<close>

definition fed3 :: ArrayStreamBuf where
  "fed3 =
     \<lparr>mem = ''abc'' @ replicate 5 (CHR 0x00), eback = 0, gptr = 0, egptr = 3,
      N = 8, size_bytes = 3\<rparr>"

section \<open>Properties of the cursor\<close>

lemma sbumpc_loop_ok:
  "n \<le> egptr b - gptr b \<Longrightarrow> egptr b \<le> length (mem b) \<Longrightarrow>
   sbumpc_loop n b = Inr (b\<lparr>gptr := gptr b + n\<rparr>)"
proof (induction n arbitrary: b)
  case 0
  then show ?case by simp
next
  case (Suc n)
  from Suc.prems have lt: "gptr b < egptr b" and inb: "gptr b < length (mem b)"
    by simp_all
  let ?b' = "b\<lparr>gptr := gptr b + 1\<rparr>"
  have step: "sbumpc b = Inr (to_int_type (mem b ! gptr b), ?b')"
    using lt inb by (simp add: sbumpc_def deref_def)
  have "sbumpc_loop n ?b' = Inr (?b'\<lparr>gptr := gptr ?b' + n\<rparr>)"
    using Suc.prems by (intro Suc.IH) simp_all
  then show ?case
    using step by simp
qed

lemma advance_ok:
  assumes "window_ok b" and "count \<le> remaining b"
  shows "advance count b = Inr (True, b\<lparr>gptr := gptr b + count\<rparr>)"
proof -
  from assms have "count \<le> egptr b - gptr b"
    by (simp add: remaining_def in_avail_def split: if_splits)
  moreover from assms have "egptr b \<le> length (mem b)"
    by (simp add: window_ok_def)
  ultimately have "sbumpc_loop count b = Inr (b\<lparr>gptr := gptr b + count\<rparr>)"
    by (rule sbumpc_loop_ok)
  with assms(2) show ?thesis
    by (simp add: advance_def remaining_def)
qed

lemma advance_fail:
  "remaining b < count \<Longrightarrow> advance count b = Inr (False, b)"
  by (simp add: advance_def remaining_def)

lemma advance_zero: "advance 0 b = Inr (True, b)"
  by (simp add: advance_def)

text \<open>
  Claim C9. On a well-formed window, \<open>advance count\<close> with \<open>count \<le> remaining\<close>
  returns true and moves the current pointer, and so the position, forward by exactly
  \<open>count\<close>, leaving start, end and storage as they were; with \<open>count > remaining\<close>
  it returns false and the whole buffer is unchanged.
\<close>

theorem advance_spec:
  assumes "window_ok b"
  shows "(count \<le> remaining b \<longrightarrow>
            (\<exists>b'. advance count b = Inr (True, b') \<and>
                  b' = b\<lparr>gptr := gptr b + count\<rparr> \<and>
                  position b' = position b + count \<and>
                  remaining b' = remaining b - count)) \<and>
         (remaining b < count \<longrightarrow> advance count b = Inr (False, b))"
proof (intro conjI impI)
  assume le: "count \<le> remaining b"
  let ?b' = "b\<lparr>gptr := gptr b + count\<rparr>"
  have "advance count b = Inr (True, ?b')"
    using assms le by (rule advance_ok)
  moreover have "position ?b' = position b + count"
    using assms by (simp add: position_def window_ok_def)
  moreover have "remaining ?b' = remaining b - count"
    using assms le by (auto simp: remaining_def in_avail_def window_ok_def split: if_splits)
  ultimately show "\<exists>b'. advance count b = Inr (True, b') \<and> b' = ?b' \<and>
      position b' = position b + count \<and> remaining b' = remaining b - count"
    by simp
next
  assume "remaining b < count"
  then show "advance count b = Inr (False, b)"
    by (rule advance_fail)
qed

theorem advance_spec_witness:
  "window_ok host_buf \<and> remaining host_buf = 19 \<and>
   advance 4 host_buf = Inr (True, host_buf\<lparr>gptr := 4\<rparr>) \<and>
   position (host_buf\<lparr>gptr := 4\<rparr>) = position host_buf + 4 \<and>
   advance 19 host_buf = Inr (True, host_buf\<lparr>gptr := 19\<rparr>) \<and>
   advance 20 host_buf = Inr (False, host_buf)"
proof -
  have w: "window_ok host_buf"
    by (simp add: window_ok_def host_buf_def host_line_def)
  have r: "remaining host_buf = 19" and g: "gptr host_buf = 0"
    by (simp_all add: remaining_def in_avail_def host_buf_def)
  from advance_spec [OF w, of 4] advance_spec [OF w, of 19] advance_spec [OF w, of 20] w r g
  show ?thesis by simp
qed

lemmas cursor_defs =
  eof_def remaining_def in_avail_def current_def sgetc_def deref_def to_int_type_def
  tolower_char_def tolower_def char_to_int_def char_of_def advance_def sbumpc_def
  offset_def curptr_def

section \<open>Properties of the matchers\<close>

text \<open>
  Claim C10. For every cursor, also one at the end of its window, \<open>match_raw\<close> with
  length 0 returns true and leaves the buffer as it was.
\<close>

theorem match_raw_empty: "match_raw buf 0 b = Inr (True, b)"
  by (simp add: match_raw_def advance_zero)

text \<open>
  Claim C1, evaluated on the buffer \<^verbatim>\<open>"Host: example.com\r\n"\<close> with the cursor at
  position 0. \<open>match_literal\<close> folds the argument when the policy is
  \<open>Insensitive\<close> but folds the current byte when the policy is \<open>Sensitive\<close>:
  with \<open>Insensitive\<close> the argument \<open>H\<close> becomes \<open>h\<close> and is compared with the
  unfolded byte \<open>H\<close>, so the call returns false and the cursor stays at position 0;
  with \<open>Sensitive\<close> the argument \<open>H\<close> does not match the byte \<open>H\<close> either,
  and the argument \<open>h\<close> does.
\<close>

theorem match_literal_host:
  "match_literal CHR ''H'' host_buf Insensitive = Inr (False, host_buf) \<and>
   position host_buf = 0 \<and>
   match_literal CHR ''H'' host_buf Sensitive = Inr (False, host_buf) \<and>
   match_literal CHR ''h'' host_buf Sensitive = Inr (True, host_buf\<lparr>gptr := 1\<rparr>)"
  by (simp add: match_literal_def host_buf_def host_line_def position_def cursor_defs)

text \<open>
  Claim C3, evaluated with the cursor on the last byte of its window
  (\<open>current = end - 1\<close>): \<open>next_byte\<close> returns the byte stored at \<open>end\<close>,
  outside the window, not the EOF sentinel; when the storage ends with the window the
  read is out of bounds.
\<close>

theorem next_byte_last:
  "gptr (RawStreamBuf ''AB'' 1) = egptr (RawStreamBuf ''AB'' 1) - 1 \<and>
   remaining (RawStreamBuf ''AB'' 1) = 1 \<and>
   next_byte (RawStreamBuf ''AB'' 1) = Inr 66 \<and>
   next_byte (RawStreamBuf ''AB'' 1) \<noteq> Inr Eof \<and>
   next_byte (RawStreamBuf ''A'' 1) = Inl OutOfBounds"
  by (simp add: next_byte_def snext_def RawStreamBuf_def Eof_def cursor_defs)

text \<open>
  Claim C6, evaluated on a window holding \<open>Host\<close> with the target \<open>H\<close>: the
  first byte equals the target under either case policy, yet \<open>match_until\<close> scans
  past it to the end of the window and returns false, its comparison being the one of
  \<open>match_literal\<close>.
\<close>

theorem match_until_host:
  "match_until [CHR ''H''] (RawStreamBuf ''Host'' 4) Sensitive =
     Inr (False, (RawStreamBuf ''Host'' 4)\<lparr>gptr := 4\<rparr>) \<and>
   match_until [CHR ''H''] (RawStreamBuf ''Host'' 4) Insensitive =
     Inr (False, (RawStreamBuf ''Host'' 4)\<lparr>gptr := 4\<rparr>) \<and>
   match_until_char CHR ''H'' (RawStreamBuf ''Host'' 4) Insensitive =
     Inr (False, (RawStreamBuf ''Host'' 4)\<lparr>gptr := 4\<rparr>) \<and>
   mem (RawStreamBuf ''Host'' 4) ! gptr (RawStreamBuf ''Host'' 4) = CHR ''H''"
  by (simp add: match_until_char_def match_until_def RawStreamBuf_def cursor_defs)

section \<open>Properties of the Revert guard\<close>

lemma sbumpc_shape:
  "sbumpc b = Inr (c, b') \<Longrightarrow> \<exists>g. b' = b\<lparr>gptr := g\<rparr>"
proof (cases "gptr b < egptr b")
  case True
  assume "sbumpc b = Inr (c, b')"
  with True have "b' = b\<lparr>gptr := gptr b + 1\<rparr>"
    by (auto simp: sbumpc_def split: sum.splits)
  then show ?thesis ..
next
  case False
  assume "sbumpc b = Inr (c, b')"
  with False have "b' = b\<lparr>gptr := gptr b\<rparr>"
    by (simp add: sbumpc_def)
  then show ?thesis ..
qed

lemma sbumpc_loop_shape:
  "sbumpc_loop n b = Inr b' \<Longrightarrow> \<exists>g. b' = b\<lparr>gptr := g\<rparr>"
proof (induction n arbitrary: b)
  case 0
  then have "b' = b\<lparr>gptr := gptr b\<rparr>" by simp
  then show ?case ..
next
  case (Suc n)
  from Suc.prems obtain c b1 where s: "sbumpc b = Inr (c, b1)" and l: "sbumpc_loop n b1 = Inr b'"
    by (auto split: sum.splits)
  from sbumpc_shape [OF s] obtain g1 where "b1 = b\<lparr>gptr := g1\<rparr>" ..
  moreover from Suc.IH [OF l] obtain g where "b' = b1\<lparr>gptr := g\<rparr>" ..
  ultimately have "b' = b\<lparr>gptr := g\<rparr>" by simp
  then show ?case ..
qed

lemma advance_shape:
  "advance n b = Inr (ok, b') \<Longrightarrow> \<exists>g. b' = b\<lparr>gptr := g\<rparr>"
proof (cases "n > in_avail b")
  case True
  assume "advance n b = Inr (ok, b')"
  with True have "b' = b\<lparr>gptr := gptr b\<rparr>" by (simp add: advance_def)
  then show ?thesis ..
next
  case False
  assume "advance n b = Inr (ok, b')"
  with False have "sbumpc_loop n b = Inr b'"
    by (auto simp: advance_def split: sum.splits)
  then show ?thesis by (rule sbumpc_loop_shape)
qed

lemma advances_shape:
  "advances ns b = Inr b' \<Longrightarrow> \<exists>g. b' = b\<lparr>gptr := g\<rparr>"
proof (induction ns arbitrary: b)
  case Nil
  then have "b' = b\<lparr>gptr := gptr b\<rparr>" by simp
  then show ?case ..
next
  case (Cons n ns)
  from Cons.prems obtain ok b1 where a: "advance n b = Inr (ok, b1)" and r: "advances ns b1 = Inr b'"
    by (auto split: sum.splits)
  from advance_shape [OF a] obtain g1 where "b1 = b\<lparr>gptr := g1\<rparr>" ..
  moreover from Cons.IH [OF r] obtain g where "b' = b1\<lparr>gptr := g\<rparr>" ..
  ultimately have "b' = b\<lparr>gptr := g\<rparr>" by simp
  then show ?case ..
qed

lemma advance_total:
  assumes "window_ok b"
  shows "\<exists>ok b'. advance n b = Inr (ok, b') \<and> window_ok b'"
proof (cases "n \<le> remaining b")
  case True
  with assms have "advance n b = Inr (True, b\<lparr>gptr := gptr b + n\<rparr>)"
    by (simp add: advance_ok)
  moreover from assms True have "window_ok (b\<lparr>gptr := gptr b + n\<rparr>)"
    by (auto simp: window_ok_def remaining_def in_avail_def split: if_splits)
  ultimately show ?thesis by blast
next
  case False
  then have "advance n b = Inr (False, b)" by (simp add: advance_fail)
  with assms show ?thesis by blast
qed

lemma advances_total:
  "window_ok b \<Longrightarrow> \<exists>b'. advances ns b = Inr b' \<and> window_ok b'"
proof (induction ns arbitrary: b)
  case Nil
  then show ?case by simp
next
  case (Cons n ns)
  from advance_total [OF Cons.prems, of n]
  obtain ok b1 where a: "advance n b = Inr (ok, b1)" and w: "window_ok b1" by blast
  from Cons.IH [OF w] obtain b' where "advances ns b1 = Inr b'" and "window_ok b'" by blast
  with a show ?case by simp
qed

lemma revert_restores:
  "Revert_destroy (Revert_init b) (b\<lparr>gptr := g\<rparr>) = b"
  by (simp add: Revert_destroy_def Revert_init_def revert_def setArea_def
      begptr_def curptr_def endptr_def)

lemma ignore_commits:
  "Revert_destroy (ignore (Revert_init b)) b' = b'"
  by (simp add: Revert_destroy_def Revert_init_def ignore_def)

text \<open>
  Claim C5. A guard built on a well-formed buffer \<open>b\<close>, then any sequence \<open>ns\<close> of
  \<open>advance\<close> calls: destroying the guard gives back \<open>b\<close> itself (start, current,
  end, and the storage, which no advance touches); destroying it after \<open>ignore\<close>
  leaves the advanced buffer as it is. Nested: an inner guard built after those
  advances, more advances \<open>ms\<close>, the inner guard committed and destroyed, then the
  outer guard destroyed: the buffer is \<open>b\<close> again.
\<close>

theorem revert_guard:
  assumes "window_ok b"
  shows "\<exists>b1. advances ns b = Inr b1 \<and>
           Revert_destroy (Revert_init b) b1 = b \<and>
           Revert_destroy (ignore (Revert_init b)) b1 = b1 \<and>
           (\<exists>b2. advances ms b1 = Inr b2 \<and>
              Revert_destroy (Revert_init b)
                (Revert_destroy (ignore (Revert_init b1)) b2) = b)"
proof -
  from advances_total [OF assms, of ns]
  obtain b1 where a1: "advances ns b = Inr b1" and w1: "window_ok b1" by blast
  from advances_total [OF w1, of ms]
  obtain b2 where a2: "advances ms b1 = Inr b2" by blast
  from advances_shape [OF a1] obtain g1 where s1: "b1 = b\<lparr>gptr := g1\<rparr>" ..
  from advances_shape [OF a2] obtain g2 where s2: "b2 = b1\<lparr>gptr := g2\<rparr>" ..
  have r1: "Revert_destroy (Revert_init b) b1 = b"
    unfolding s1 by (rule revert_restores)
  have "b2 = b\<lparr>gptr := g2\<rparr>" using s1 s2 by simp
  then have r2: "Revert_destroy (Revert_init b) b2 = b"
    by (simp only: revert_restores)
  show ?thesis
    using a1 a2 r1 r2 by (simp add: ignore_commits)
qed

theorem revert_guard_witness:
  "window_ok host_buf \<and>
   advances [1, 3] host_buf = Inr (host_buf\<lparr>gptr := 4\<rparr>) \<and>
   Revert_destroy (Revert_init host_buf) (host_buf\<lparr>gptr := 4\<rparr>) = host_buf \<and>
   Revert_destroy (ignore (Revert_init host_buf)) (host_buf\<lparr>gptr := 4\<rparr>) = host_buf\<lparr>gptr := 4\<rparr>"
proof -
  have w: "window_ok host_buf"
    by (simp add: window_ok_def host_buf_def host_line_def)
  have a: "advances [1, 3] host_buf = Inr (host_buf\<lparr>gptr := 4\<rparr>)"
    by code_simp
  from revert_guard [OF w, of "[1, 3]" "[2]"] a w show ?thesis
    by auto
qed

section \<open>Properties of the appendable buffer\<close>

lemma feed_fail:
  assumes "size_bytes b + len < SIZE_MOD" and "N b \<le> size_bytes b + len"
  shows "feed data len b = Inr (False, b)"
  using assms by (simp add: feed_def)

lemma feed_ok:
  assumes "length (mem b) = N b" and "len \<le> length data" and "size_bytes b + len < N b"
    and "size_bytes b + len < SIZE_MOD"
  shows "feed data len b =
    Inr (True, b\<lparr>mem := take (size_bytes b) (mem b) @ take len data @ drop (size_bytes b + len) (mem b),
                  eback := 0, gptr := size_bytes b, egptr := size_bytes b + len,
                  size_bytes := size_bytes b + len\<rparr>)"
  using assms by (simp add: feed_def memcpy_def setArea_def)

text \<open>
  As long as \<open>size + len\<close> does not wrap around: on an \<open>ArrayStreamBuf\<close> whose
  array has its \<open>N\<close> bytes, given \<open>len\<close> bytes of data, \<open>feed\<close> returns false
  and leaves the buffer as it was whenever \<open>size + len \<ge> N\<close>, in particular when
  \<open>size + len = N\<close>; it returns true whenever \<open>size + len < N\<close>, in particular
  when \<open>size + len = N - 1\<close>, and then the \<open>len\<close> bytes stand at offset
  \<open>size\<close> of the array, the rest of the array is unchanged, the window's start is the
  array's base, its current is the previous size, its end is \<open>size + len\<close>, which is
  also the new size.
\<close>

theorem feed_spec:
  assumes "length (mem b) = N b" and "len \<le> length data" and "size_bytes b + len < SIZE_MOD"
  shows "(N b \<le> size_bytes b + len \<longrightarrow> feed data len b = Inr (False, b)) \<and>
         (size_bytes b + len = N b \<longrightarrow> feed data len b = Inr (False, b)) \<and>
         (size_bytes b + len < N b \<longrightarrow>
            (\<exists>b'. feed data len b = Inr (True, b') \<and>
               take len (drop (size_bytes b) (mem b')) = take len data \<and>
               take (size_bytes b) (mem b') = take (size_bytes b) (mem b) \<and>
               drop (size_bytes b + len) (mem b') = drop (size_bytes b + len) (mem b) \<and>
               eback b' = 0 \<and> gptr b' = size_bytes b \<and> egptr b' = size_bytes b + len \<and>
               size_bytes b' = size_bytes b + len \<and> N b' = N b)) \<and>
         (size_bytes b + len + 1 = N b \<longrightarrow> (\<exists>b'. feed data len b = Inr (True, b')))"
proof (intro conjI impI)
  assume "N b \<le> size_bytes b + len"
  with assms(3) show "feed data len b = Inr (False, b)" by (simp add: feed_fail)
next
  assume "size_bytes b + len = N b"
  with assms(3) show "feed data len b = Inr (False, b)" by (simp add: feed_fail)
next
  assume lt: "size_bytes b + len < N b"
  let ?m = "take (size_bytes b) (mem b) @ take len data @ drop (size_bytes b + len) (mem b)"
  let ?b' = "b\<lparr>mem := ?m, eback := 0, gptr := size_bytes b, egptr := size_bytes b + len,
                size_bytes := size_bytes b + len\<rparr>"
  have f: "feed data len b = Inr (True, ?b')"
    by (rule feed_ok [OF assms(1) assms(2) lt assms(3)])
  have l1: "length (take (size_bytes b) (mem b)) = size_bytes b"
    using assms(1) lt by simp
  have l2: "length (take len data) = len"
    using assms(2) by simp
  have m1: "take len (drop (size_bytes b) ?m) = take len data"
    using l1 l2 by simp
  have m2: "take (size_bytes b) ?m = take (size_bytes b) (mem b)"
    using l1 by simp
  have m3: "drop (size_bytes b + len) ?m = drop (size_bytes b + len) (mem b)"
    using l1 l2 by (simp add: drop_append)
  show "\<exists>b'. feed data len b = Inr (True, b') \<and>
               take len (drop (size_bytes b) (mem b')) = take len data \<and>
               take (size_bytes b) (mem b') = take (size_bytes b) (mem b) \<and>
               drop (size_bytes b + len) (mem b') = drop (size_bytes b + len) (mem b) \<and>
               eback b' = 0 \<and> gptr b' = size_bytes b \<and> egptr b' = size_bytes b + len \<and>
               size_bytes b' = size_bytes b + len \<and> N b' = N b"
    using f m1 m2 m3 by simp
next
  assume "size_bytes b + len + 1 = N b"
  then have lt: "size_bytes b + len < N b" by simp
  from feed_ok [OF assms(1) assms(2) lt assms(3)] show "\<exists>b'. feed data len b = Inr (True, b')"
    by blast
qed

theorem feed_spec_witness:
  "length (mem (ArrayStreamBuf_init 4)) = N (ArrayStreamBuf_init 4) \<and>
   size_bytes (ArrayStreamBuf_init 4) + 4 < SIZE_MOD \<and>
   feed ''abcd'' 4 (ArrayStreamBuf_init 4) = Inr (False, ArrayStreamBuf_init 4) \<and>
   (\<exists>b'. feed ''abc'' 3 (ArrayStreamBuf_init 4) = Inr (True, b') \<and>
      take 3 (mem b') = ''abc'' \<and> eback b' = 0 \<and> gptr b' = 0 \<and> egptr b' = 3 \<and>
      size_bytes b' = 3)"
proof -
  let ?b = "ArrayStreamBuf_init 4"
  have h1: "length (mem ?b) = N ?b"
    by (simp add: ArrayStreamBuf_init_def)
  have h3: "size_bytes ?b + 4 < SIZE_MOD" and h3': "size_bytes ?b + 3 < SIZE_MOD"
    by (simp_all add: ArrayStreamBuf_init_def SIZE_MOD_def)
  have s: "size_bytes ?b = 0" and n: "N ?b = 4"
    by (simp_all add: ArrayStreamBuf_init_def)
  have "feed ''abcd'' 4 ?b = Inr (False, ?b)"
    using feed_spec [OF h1 _ h3, of "''abcd''"] s n by simp
  moreover have "\<exists>b'. feed ''abc'' 3 ?b = Inr (True, b') \<and>
      take 3 (mem b') = ''abc'' \<and> eback b' = 0 \<and> gptr b' = 0 \<and> egptr b' = 3 \<and>
      size_bytes b' = 3"
    using feed_spec [OF h1 _ h3', of "''abc''"] s n by auto
  ultimately show ?thesis
    using h1 h3 by simp
qed

text \<open>
  Claim C7, evaluated on an \<^verbatim>\<open>ArrayStreamBuf<8>\<close> holding 3 bytes and a feed of
  \<open>len = 2 ^ 64 - 1\<close>, the largest \<^verbatim>\<open>size_t\<close>. Here \<open>size + len \<ge> N\<close>, but
  the sum that \<open>feed\<close> compares with \<open>N\<close> wraps around to 2: the feed is not
  rejected, and the \<^verbatim>\<open>memcpy\<close> of \<open>len\<close> bytes runs out of the array, whatever
  the data.
\<close>

theorem feed_wraps:
  "feed ''abc'' 3 (ArrayStreamBuf_init 8) = Inr (True, fed3) \<and>
   N fed3 \<le> size_bytes fed3 + (SIZE_MOD - 1) \<and>
   (size_bytes fed3 + (SIZE_MOD - 1)) mod SIZE_MOD = 2 \<and>
   feed bytes (SIZE_MOD - 1) fed3 = Inl OutOfBounds \<and>
   feed bytes (SIZE_MOD - 1) fed3 \<noteq> Inr (False, fed3)"
  by (simp add: feed_def memcpy_def setArea_def fed3_def ArrayStreamBuf_init_def SIZE_MOD_def)

section \<open>Properties of the growable output buffer\<close>

lemma init_ok:
  assumes "1 \<le> sz" "sz \<le> mx" "mx < 2 ^ 63"
  shows "stream_ok (NetworkStream_init sz mx)" "pptr (NetworkStream_init sz mx) = 0"
    "length (data' (NetworkStream_init sz mx)) = sz" "maxSize (NetworkStream_init sz mx) = mx"
  using assms
  by (simp_all add: NetworkStream_init_def reserve_def stream_ok_def vector_resize_def)


lemma to_int_type_nonneg: "0 \<le> to_int_type c"
proof -
  have "to_int_type c = int (of_char c)"
    by (simp add: to_int_type_def of_nat_of_char)
  then show ?thesis by simp
qed

lemma to_int_type_not_Eof: "to_int_type c \<noteq> Eof"
  using to_int_type_nonneg [of c] by (simp add: Eof_def)

lemma char_of_to_int_type: "char_of (to_int_type c) = c"
  by (simp add: to_int_type_def)

lemma sputc_room:
  assumes "stream_ok s" "pptr s < length (data' s)"
  shows "sputc c s = Inr (to_int_type c, s\<lparr>data' := (data' s)[pptr s := c], pptr := pptr s + 1\<rparr>)"
  using assms by (simp add: sputc_def stream_ok_def store_def)

lemma double_no_wrap:
  "n < 2 ^ 63 \<Longrightarrow> (n * 2) mod SIZE_MOD = 2 * (n::nat)"
  by (simp add: SIZE_MOD_def)

lemma sputc_grow:
  assumes "stream_ok s" "pptr s = length (data' s)" "length (data' s) < maxSize s"
  shows "sputc c s =
    Inr (to_int_type c,
      s\<lparr>data' := (vector_resize (min (2 * length (data' s)) (maxSize s)) (data' s))[length (data' s) := c],
        pptr := length (data' s) + 1,
        epptr := min (2 * length (data' s)) (maxSize s)\<rparr>)"
proof -
  let ?n = "length (data' s)"
  from assms have n63: "?n < 2 ^ 63" and n1: "1 \<le> ?n" and ep: "epptr s = ?n"
    by (simp_all add: stream_ok_def)
  have dbl: "(?n * 2) mod SIZE_MOD = 2 * ?n"
    using n63 by (rule double_no_wrap)
  have res: "reserve (2 * ?n) s =
      s\<lparr>data' := vector_resize (min (2 * ?n) (maxSize s)) (data' s), pptr := ?n,
        epptr := min (2 * ?n) (maxSize s)\<rparr>"
    by (simp add: reserve_def min_def Let_def)
  have "length (vector_resize (min (2 * ?n) (maxSize s)) (data' s)) = min (2 * ?n) (maxSize s)"
    using assms(3) by (simp add: vector_resize_def min_def)
  moreover have "?n < min (2 * ?n) (maxSize s)"
    using assms(3) n1 by arith
  ultimately have len: "?n < length (vector_resize (min (2 * ?n) (maxSize s)) (data' s))"
    by (simp only:)
  have "overflow (to_int_type c) s =
      Inr (to_int_type c,
        s\<lparr>data' := (vector_resize (min (2 * ?n) (maxSize s)) (data' s))[?n := c],
          pptr := ?n + 1, epptr := min (2 * ?n) (maxSize s)\<rparr>)"
    using assms(3) len
    by (simp add: overflow_def to_int_type_not_Eof dbl res store_def not_eof_def
        char_of_to_int_type Let_def)
  then show ?thesis
    using assms(2) ep by (simp add: sputc_def)
qed

lemma sputc_full:
  assumes "stream_ok s" "pptr s = length (data' s)" "length (data' s) = maxSize s"
  shows "sputc c s = Inr (Eof, s)"
  using assms by (simp add: sputc_def overflow_def stream_ok_def to_int_type_not_Eof)


lemma sputc_step:
  assumes ok: "stream_ok s" and lt: "pptr s < maxSize s"
  shows "\<exists>s'. sputc c s = Inr (to_int_type c, s') \<and> stream_ok s' \<and>
           pptr s' = pptr s + 1 \<and> maxSize s' = maxSize s \<and>
           take (pptr s + 1) (data' s') = take (pptr s) (data' s) @ [c] \<and>
           length (data' s') =
             (if pptr s < length (data' s) then length (data' s)
              else min (2 * length (data' s)) (maxSize s))"
proof (cases "pptr s < length (data' s)")
  case True
  let ?s' = "s\<lparr>data' := (data' s)[pptr s := c], pptr := pptr s + 1\<rparr>"
  have "sputc c s = Inr (to_int_type c, ?s')"
    using ok True by (rule sputc_room)
  moreover have "stream_ok ?s'"
    using ok True by (simp add: stream_ok_def)
  moreover have "take (pptr s + 1) (data' ?s') = take (pptr s) (data' s) @ [c]"
    using True by (simp add: take_Suc_conv_app_nth)
  ultimately show ?thesis
    using True by simp
next
  case False
  let ?n = "length (data' s)"
  let ?m = "min (2 * ?n) (maxSize s)"
  from ok False have pn: "pptr s = ?n" and n1: "1 \<le> ?n"
    by (simp_all add: stream_ok_def)
  with lt have nlt: "?n < maxSize s" by simp
  let ?s' = "s\<lparr>data' := (vector_resize ?m (data' s))[?n := c], pptr := ?n + 1, epptr := ?m\<rparr>"
  have sp: "sputc c s = Inr (to_int_type c, ?s')"
    using ok pn nlt by (rule sputc_grow)
  have len: "length (vector_resize ?m (data' s)) = ?m"
    using nlt by (simp add: vector_resize_def min_def)
  have nm: "?n < ?m"
    using nlt n1 by arith
  have ok': "stream_ok ?s'"
    using ok nm len by (simp add: stream_ok_def)
  have pre: "take ?n (vector_resize ?m (data' s)) = data' s"
    using nm by (simp add: vector_resize_def)
  have "take (?n + 1) ((vector_resize ?m (data' s))[?n := c]) = data' s @ [c]"
    using nm len pre by (simp add: take_Suc_conv_app_nth)
  then have tk: "take (pptr s + 1) (data' ?s') = take (pptr s) (data' s) @ [c]"
    using pn by simp
  show ?thesis
    using sp ok' tk pn len False by simp
qed

lemma write_all_ok:
  "stream_ok s \<Longrightarrow> pptr s + length bs \<le> maxSize s \<Longrightarrow>
   \<exists>s'. write_all bs s = Inr (map to_int_type bs, s') \<and> stream_ok s' \<and>
        pptr s' = pptr s + length bs \<and> maxSize s' = maxSize s \<and>
        take (pptr s') (data' s') = take (pptr s) (data' s) @ bs"
proof (induction bs arbitrary: s)
  case Nil
  then show ?case by simp
next
  case (Cons c cs)
  from Cons.prems have lt: "pptr s < maxSize s" by simp
  from sputc_step [OF Cons.prems(1) lt, of c]
  obtain s1 where sp: "sputc c s = Inr (to_int_type c, s1)" and ok1: "stream_ok s1"
    and p1: "pptr s1 = pptr s + 1" and m1: "maxSize s1 = maxSize s"
    and t1: "take (pptr s + 1) (data' s1) = take (pptr s) (data' s) @ [c]"
    by blast
  from Cons.prems p1 m1 have room: "pptr s1 + length cs \<le> maxSize s1" by simp
  from Cons.IH [OF ok1 room]
  obtain s' where w: "write_all cs s1 = Inr (map to_int_type cs, s')" and ok': "stream_ok s'"
    and p': "pptr s' = pptr s1 + length cs" and m': "maxSize s' = maxSize s1"
    and t': "take (pptr s') (data' s') = take (pptr s1) (data' s1) @ cs"
    by blast
  have "write_all (c # cs) s = Inr (map to_int_type (c # cs), s')"
    using sp w by simp
  moreover have "pptr s' = pptr s + length (c # cs)"
    using p' p1 by simp
  moreover have "take (pptr s') (data' s') = take (pptr s) (data' s) @ c # cs"
    using t' t1 p1 by simp
  ultimately show ?case
    using ok' m' m1 by simp
qed


lemma write_all_snoc:
  "write_all xs s = Inr (rs, s1) \<Longrightarrow> sputc c s1 = Inr (r, s2) \<Longrightarrow>
   write_all (xs @ [c]) s = Inr (rs @ [r], s2)"
proof (induction xs arbitrary: s rs)
  case Nil
  then show ?case by simp
next
  case (Cons x xs)
  from Cons.prems(1) obtain r0 s0 rs0 where a: "sputc x s = Inr (r0, s0)"
    and b: "write_all xs s0 = Inr (rs0, s1)" and c: "rs = r0 # rs0"
    by (auto split: sum.splits)
  from Cons.IH [OF b Cons.prems(2)] a c show ?case by simp
qed

text \<open>
  Claim C8. A \<open>NetworkStream\<close> built with initial capacity \<open>sz \<ge> 1\<close> and
  \<open>maxSize = mx \<ge> sz\<close> (a size a vector can have): writing \<open>mx\<close> bytes one at a
  time succeeds for every byte, the written length is then \<open>mx\<close> and the written
  bytes are the ones given; one more write returns EOF and leaves the stream as it was.
  The capacity starts as \<open>sz\<close>; the write number \<open>k + 1\<close> leaves it alone when the
  \<open>k\<close> bytes written so far do not fill it, and otherwise makes it the double,
  clamped to \<open>mx\<close>.
\<close>

theorem network_stream_writes:
  assumes sz1: "1 \<le> sz" and szmx: "sz \<le> mx" and mx63: "mx < 2 ^ 63" and len: "length bs = mx"
  shows "length (data' (NetworkStream_init sz mx)) = sz \<and>
         (\<exists>s. write_all bs (NetworkStream_init sz mx) = Inr (map to_int_type bs, s) \<and>
              snd (buffer s) = mx \<and> take mx (data' s) = bs \<and>
              sputc c s = Inr (Eof, s)) \<and>
         (\<forall>k<mx. \<exists>s1 s2.
              write_all (take k bs) (NetworkStream_init sz mx) = Inr (map to_int_type (take k bs), s1) \<and>
              write_all (take (Suc k) bs) (NetworkStream_init sz mx) =
                Inr (map to_int_type (take (Suc k) bs), s2) \<and>
              snd (buffer s1) = k \<and> snd (buffer s2) = Suc k \<and>
              length (data' s2) =
                (if k < length (data' s1) then length (data' s1)
                 else min (2 * length (data' s1)) mx))"
proof (intro conjI allI impI)
  let ?s0 = "NetworkStream_init sz mx"
  note i = init_ok [OF sz1 szmx mx63]
  show "length (data' ?s0) = sz" by (rule i(3))
  show "\<exists>s. write_all bs ?s0 = Inr (map to_int_type bs, s) \<and>
              snd (buffer s) = mx \<and> take mx (data' s) = bs \<and> sputc c s = Inr (Eof, s)"
  proof -
    have room: "pptr ?s0 + length bs \<le> maxSize ?s0"
      using i(2) i(4) len by simp
    from write_all_ok [OF i(1) room]
    obtain s where w: "write_all bs ?s0 = Inr (map to_int_type bs, s)" and ok: "stream_ok s"
      and p: "pptr s = pptr ?s0 + length bs" and m: "maxSize s = maxSize ?s0"
      and t: "take (pptr s) (data' s) = take (pptr ?s0) (data' ?s0) @ bs"
      by blast
    have pm: "pptr s = mx" using p i(2) len by simp
    have ms: "maxSize s = mx" using m i(4) by simp
    from ok pm ms have full: "pptr s = length (data' s)" "length (data' s) = maxSize s"
      by (simp_all add: stream_ok_def)
    have "sputc c s = Inr (Eof, s)"
      using ok full by (rule sputc_full)
    moreover have "take mx (data' s) = bs"
      using t pm i(2) by simp
    moreover have "snd (buffer s) = mx"
      using pm by (simp add: buffer_def)
    ultimately show ?thesis using w by blast
  qed
  fix k assume k: "k < mx"
  have room: "pptr ?s0 + length (take k bs) \<le> maxSize ?s0"
    using i(2) i(4) len k by simp
  from write_all_ok [OF i(1) room]
  obtain s1 where w1: "write_all (take k bs) ?s0 = Inr (map to_int_type (take k bs), s1)"
    and ok1: "stream_ok s1" and p1: "pptr s1 = pptr ?s0 + length (take k bs)"
    and m1: "maxSize s1 = maxSize ?s0"
    by blast
  have pk: "pptr s1 = k" using p1 i(2) len k by simp
  have mk: "maxSize s1 = mx" using m1 i(4) by simp
  have lt: "pptr s1 < maxSize s1" using pk mk k by simp
  from sputc_step [OF ok1 lt, of "bs ! k"]
  obtain s2 where sp: "sputc (bs ! k) s1 = Inr (to_int_type (bs ! k), s2)"
    and p2: "pptr s2 = pptr s1 + 1"
    and l2: "length (data' s2) =
        (if pptr s1 < length (data' s1) then length (data' s1)
         else min (2 * length (data' s1)) (maxSize s1))"
    by blast
  have tk: "take (Suc k) bs = take k bs @ [bs ! k]"
    using k len by (simp add: take_Suc_conv_app_nth)
  have w2: "write_all (take (Suc k) bs) ?s0 = Inr (map to_int_type (take (Suc k) bs), s2)"
    using write_all_snoc [OF w1 sp] tk by simp
  show "\<exists>s1 s2.
      write_all (take k bs) ?s0 = Inr (map to_int_type (take k bs), s1) \<and>
      write_all (take (Suc k) bs) ?s0 = Inr (map to_int_type (take (Suc k) bs), s2) \<and>
      snd (buffer s1) = k \<and> snd (buffer s2) = Suc k \<and>
      length (data' s2) =
        (if k < length (data' s1) then length (data' s1)
         else min (2 * length (data' s1)) mx)"
    using w1 w2 pk p2 l2 mk by (auto simp: buffer_def)
qed

lemmas stream_defs =
  NetworkStream_init_def reserve_def vector_resize_def sputc_def overflow_def store_def
  not_eof_def to_int_type_def Eof_def SIZE_MOD_def buffer_def

theorem network_stream_writes_witness:
  "(1::nat) \<le> 4 \<and> (4::nat) \<le> 8 \<and> (8::nat) < 2 ^ 63 \<and> length ''abcdefgh'' = 8 \<and>
   length (data' (NetworkStream_init 4 8)) = 4 \<and>
   (\<exists>s. write_all ''abcdefgh'' (NetworkStream_init 4 8) = Inr (map to_int_type ''abcdefgh'', s) \<and>
        snd (buffer s) = 8 \<and> take 8 (data' s) = ''abcdefgh'' \<and>
        sputc CHR ''i'' s = Inr (Eof, s)) \<and>
   (\<exists>s. write_all ''abcd'' (NetworkStream_init 4 8) = Inr (map to_int_type ''abcd'', s) \<and>
        length (data' s) = 4 \<and> snd (buffer s) = 4) \<and>
   (\<exists>s. write_all ''abcde'' (NetworkStream_init 4 8) = Inr (map to_int_type ''abcde'', s) \<and>
        length (data' s) = 8 \<and> snd (buffer s) = 5)"
proof -
  have h: "(1::nat) \<le> 4" "(4::nat) \<le> 8" "(8::nat) < 2 ^ 63" "length ''abcdefgh'' = 8"
    by simp_all
  have four: "\<exists>s. write_all ''abcd'' (NetworkStream_init 4 8) = Inr (map to_int_type ''abcd'', s) \<and>
        length (data' s) = 4 \<and> snd (buffer s) = 4"
    by (simp add: stream_defs Let_def)
  have five: "\<exists>s. write_all ''abcde'' (NetworkStream_init 4 8) = Inr (map to_int_type ''abcde'', s) \<and>
        length (data' s) = 8 \<and> snd (buffer s) = 5"
    by (simp add: stream_defs Let_def)
  from network_stream_writes [OF h, of "CHR ''i''"] h four five show ?thesis
    by blast
qed

section \<open>Properties of \<open>match_double\<close>\<close>

lemmas strtod_defs =
  strtod_def strtod_parse_def subject_def special_def hexadecimal_def decimal_def
  mantissa_def exponent_def scale_def isspace_def isdigit_def isxdigit_def isalpha_def
  isnchar_def digits_value_def xdigits_value_def xdigit_value_def
  tolower_char_def tolower_def char_to_int_def char_of_def

lemma strtod_parse_3_14:
  "drop a m = ''3.14abc'' @ rest \<Longrightarrow> strtod_parse m a = Inr (Finite False 3.14, 4)"
  by (simp add: strtod_defs)

lemma mantissa_no_dot:
  "mantissa dig r = Inr (ip, False, fp, r') \<Longrightarrow> fp = []"
  by (auto simp: mantissa_def split: list.splits if_splits)

lemma special_consumes:
  "special neg r = Inr (Some (v, n)) \<Longrightarrow> 0 < n"
  by (auto simp: special_def split: sum.splits bool.splits list.splits if_splits)

lemma hexadecimal_consumes:
  "hexadecimal neg r = Inr (Some (v, n)) \<Longrightarrow> 0 < n"
  by (auto simp: hexadecimal_def split: sum.splits list.splits if_splits prod.splits)

lemma decimal_consumes:
  assumes "decimal neg r = Inr (Some (v, n))"
  shows "0 < n"
proof -
  from assms obtain ip has_dot fp r' e ne
    where m: "mantissa isdigit r = Inr (ip, has_dot, fp, r')"
      and ne: "\<not> (ip = [] \<and> fp = [])"
      and n: "n = length ip + (if has_dot then 1 + length fp else 0) + ne"
    by (auto simp: decimal_def split: sum.splits if_splits prod.splits)
  show ?thesis
  proof (cases has_dot)
    case True
    with n show ?thesis by simp
  next
    case False
    with m have "fp = []" by (simp add: mantissa_no_dot)
    with ne n show ?thesis by simp
  qed
qed

lemma subject_consumes:
  "subject neg r = Inr (Some (v, n)) \<Longrightarrow> 0 < n"
  by (auto simp: subject_def split: sum.splits option.splits
      dest: special_consumes hexadecimal_consumes decimal_consumes)

lemma strtod_parse_zero:
  assumes "strtod_parse m a = Inr (v, 0)"
  shows "v = Finite False 0"
proof (cases "dropWhile isspace (drop a m)")
  case Nil
  with assms show ?thesis by (simp add: strtod_parse_def)
next
  case (Cons c t)
  let ?r = "if c = CHR ''-'' \<or> c = CHR ''+'' then t else c # t"
  show ?thesis
  proof (cases "subject (c = CHR ''-'') ?r")
    case (Inl e)
    with assms Cons show ?thesis by (simp add: strtod_parse_def Let_def)
  next
    case (Inr p)
    show ?thesis
    proof (cases p)
      case None
      with assms Cons Inr show ?thesis by (simp add: strtod_parse_def Let_def)
    next
      case (Some vn)
      obtain w n where vn: "vn = (w, n)" by (cases vn)
      from Inr Some vn have "0 < n" by (simp add: subject_consumes)
      with assms Cons Inr Some vn show ?thesis by (simp add: strtod_parse_def Let_def)
    qed
  qed
qed

lemma strtod_parse_no_start:
  assumes a: "a < length m"
    and c: "\<not> isspace (m ! a)" "\<not> isdigit (m ! a)"
      "m ! a \<noteq> CHR ''+''" "m ! a \<noteq> CHR ''-''" "m ! a \<noteq> CHR ''.''"
      "tolower_char (m ! a) \<noteq> CHR ''i''" "tolower_char (m ! a) \<noteq> CHR ''n''"
  shows "strtod_parse m a = Inr (Finite False 0, 0)"
proof -
  from a have d: "drop a m = m ! a # drop (Suc a) m"
    by (simp add: Cons_nth_drop_Suc)
  from c(2) have z: "m ! a \<noteq> CHR ''0''"
    by (auto simp: isdigit_def)
  have s: "special False (m ! a # drop (Suc a) m) = Inr None"
    using c(6,7) by (simp add: special_def)
  have h: "hexadecimal False (m ! a # drop (Suc a) m) = Inr None"
    using z by (simp add: hexadecimal_def split: list.splits)
  have m: "mantissa isdigit (m ! a # drop (Suc a) m) = Inr ([], False, [], m ! a # drop (Suc a) m)"
    using c(2,5) by (simp add: mantissa_def)
  have "subject False (m ! a # drop (Suc a) m) = Inr None"
    using s h m by (simp add: subject_def decimal_def)
  then show ?thesis
    using d c(1,3,4) by (simp add: strtod_parse_def)
qed

text \<open>
  Claim C2, amended. On a well-formed buffer whose text at the cursor begins
  \<open>3.14abc\<close>, with at least the 4 bytes in the window, \<open>match_double\<close> returns
  true, stores the double of 3.14 and advances the cursor by exactly 4. Whenever
  \<open>strtod\<close> consumes no character, \<open>match_double\<close> returns false and leaves the
  buffer as it was, and the output value is the zero that \<open>strtod\<close> returns,
  whatever it was before. That is so, in particular, whenever the byte at the cursor is
  not white space, a sign, a digit, a point, or the first letter of \<open>INF\<close> or
  \<open>NAN\<close> in either case.
\<close>

theorem match_double_spec:
  "(window_ok b \<and> drop (offset b) (mem b) = ''3.14abc'' @ rest \<and> 4 \<le> remaining b \<longrightarrow>
      match_double (strtod rnd) val b =
        Inr (True, rnd (Finite False 3.14), b\<lparr>gptr := gptr b + 4\<rparr>)) \<and>
   (strtod_parse (mem b) (offset b) = Inr (v, 0) \<longrightarrow>
      match_double (strtod rnd) val b = Inr (False, rnd (Finite False 0), b)) \<and>
   (offset b < length (mem b) \<and>
    \<not> isspace (mem b ! offset b) \<and> \<not> isdigit (mem b ! offset b) \<and>
    mem b ! offset b \<noteq> CHR ''+'' \<and> mem b ! offset b \<noteq> CHR ''-'' \<and>
    mem b ! offset b \<noteq> CHR ''.'' \<and>
    tolower_char (mem b ! offset b) \<noteq> CHR ''i'' \<and>
    tolower_char (mem b ! offset b) \<noteq> CHR ''n'' \<longrightarrow>
      match_double (strtod rnd) val b = Inr (False, rnd (Finite False 0), b))"
proof (intro conjI impI)
  assume a: "window_ok b \<and> drop (offset b) (mem b) = ''3.14abc'' @ rest \<and> 4 \<le> remaining b"
  then have "strtod rnd (mem b) (offset b) = Inr (rnd (Finite False 3.14), 4)"
    by (simp add: strtod_def strtod_parse_3_14)
  moreover from a have "advance 4 b = Inr (True, b\<lparr>gptr := gptr b + 4\<rparr>)"
    by (simp add: advance_ok)
  ultimately show "match_double (strtod rnd) val b =
      Inr (True, rnd (Finite False 3.14), b\<lparr>gptr := gptr b + 4\<rparr>)"
    by (simp add: match_double_def)
next
  assume z: "strtod_parse (mem b) (offset b) = Inr (v, 0)"
  then have "v = Finite False 0" by (rule strtod_parse_zero)
  with z show "match_double (strtod rnd) val b = Inr (False, rnd (Finite False 0), b)"
    by (simp add: match_double_def strtod_def)
next
  assume "offset b < length (mem b) \<and>
    \<not> isspace (mem b ! offset b) \<and> \<not> isdigit (mem b ! offset b) \<and>
    mem b ! offset b \<noteq> CHR ''+'' \<and> mem b ! offset b \<noteq> CHR ''-'' \<and>
    mem b ! offset b \<noteq> CHR ''.'' \<and>
    tolower_char (mem b ! offset b) \<noteq> CHR ''i'' \<and>
    tolower_char (mem b ! offset b) \<noteq> CHR ''n''"
  then have "strtod_parse (mem b) (offset b) = Inr (Finite False 0, 0)"
    by (intro strtod_parse_no_start) simp_all
  then show "match_double (strtod rnd) val b = Inr (False, rnd (Finite False 0), b)"
    by (simp add: match_double_def strtod_def)
qed

theorem match_double_spec_witness:
  "window_ok (RawStreamBuf ''3.14abc'' 7) \<and> remaining (RawStreamBuf ''3.14abc'' 7) = 7 \<and>
   match_double (strtod id) (Finite False 0) (RawStreamBuf ''3.14abc'' 7) =
     Inr (True, Finite False 3.14, (RawStreamBuf ''3.14abc'' 7)\<lparr>gptr := 4\<rparr>) \<and>
   strtod_parse ''abc'' 0 = Inr (Finite False 0, 0) \<and>
   match_double (strtod id) (Finite False 7) (RawStreamBuf ''abc'' 3) =
     Inr (False, Finite False 0, RawStreamBuf ''abc'' 3) \<and>
   strtod_parse ''-x'' 0 = Inr (Finite False 0, 0) \<and>
   match_double (strtod id) (Finite False 7) (RawStreamBuf ''-x'' 2) =
     Inr (False, Finite False 0, RawStreamBuf ''-x'' 2)"
proof -
  let ?b = "RawStreamBuf ''3.14abc'' 7"
  let ?c = "RawStreamBuf ''abc'' 3"
  let ?d = "RawStreamBuf ''-x'' 2"
  have w: "window_ok ?b" and r: "remaining ?b = 7" and g: "gptr ?b = 0"
    and d: "drop (offset ?b) (mem ?b) = ''3.14abc'' @ []"
    by (simp_all add: RawStreamBuf_def window_ok_def remaining_def in_avail_def offset_def curptr_def)
  have c: "offset ?c < length (mem ?c)" "mem ?c ! offset ?c = CHR ''a''"
    by (simp_all add: RawStreamBuf_def offset_def curptr_def)
  have ca: "\<not> isspace CHR ''a''" "\<not> isdigit CHR ''a''"
    "tolower_char CHR ''a'' \<noteq> CHR ''i''" "tolower_char CHR ''a'' \<noteq> CHR ''n''"
    by (simp_all add: strtod_defs)
  have z: "strtod_parse ''abc'' 0 = Inr (Finite False 0, 0)"
    and z': "strtod_parse ''-x'' 0 = Inr (Finite False 0, 0)"
    by (simp_all add: strtod_defs)
  have zd: "strtod_parse (mem ?d) (offset ?d) = Inr (Finite False 0, 0)"
    using z' by (simp add: RawStreamBuf_def offset_def curptr_def)
  from match_double_spec [of ?b "[]" id "Finite False 0"]
    match_double_spec [of ?c _ id "Finite False 7"]
    match_double_spec [of ?d _ id "Finite False 7" "Finite False 0"]
    w r g d c ca z z' zd
  show ?thesis by simp
qed

text \<open>
  Claim C2 as stated fails: on the text \<open>abc\<close>, where \<open>strtod\<close> consumes no
  character, the output value 7 is not left untouched but becomes 0.
\<close>

theorem match_double_overwrites:
  "strtod_parse ''abc'' 0 = Inr (Finite False 0, 0) \<and>
   match_double (strtod id) (Finite False 7) (RawStreamBuf ''abc'' 3) =
     Inr (False, Finite False 0, RawStreamBuf ''abc'' 3) \<and>
   match_double (strtod id) (Finite False 7) (RawStreamBuf ''abc'' 3) \<noteq>
     Inr (False, Finite False 7, RawStreamBuf ''abc'' 3)"
  by (simp add: match_double_def RawStreamBuf_def offset_def curptr_def strtod_defs)

text \<open>
  Claim C4, evaluated on a window of the two bytes \<open>12\<close>. \<open>strtod\<close> has no
  length argument and reads on past the end of the window: when the bytes \<open>34x\<close>
  follow in the storage, \<open>match_double\<close> returns true with the value 1234, made of
  bytes outside the window, and the cursor does not move (the advance by 4 exceeds the
  2 remaining bytes); when \<open>xx9\<close> follows, the value is 12, so the result depends on
  the byte at the window's end; when the storage ends with the window, the read is out
  of bounds.
\<close>

theorem match_double_reads_past_end:
  "remaining (RawStreamBuf ''1234x'' 2) = 2 \<and>
   match_double (strtod rnd) val (RawStreamBuf ''1234x'' 2) =
     Inr (True, rnd (Finite False 1234), RawStreamBuf ''1234x'' 2) \<and>
   match_double (strtod rnd) val (RawStreamBuf ''12xx9'' 2) =
     Inr (True, rnd (Finite False 12), (RawStreamBuf ''12xx9'' 2)\<lparr>gptr := 2\<rparr>) \<and>
   match_double (strtod rnd) val (RawStreamBuf ''12'' 2) = Inl OutOfBounds"
  by (simp add: match_double_def RawStreamBuf_def strtod_defs cursor_defs eval_nat_numeral)

text \<open>The text \<open>infx\<close> is a number: \<open>match_double\<close> consumes three bytes.\<close>

lemma match_double_inf:
  "match_double (strtod rnd) val (RawStreamBuf ''infx'' 4) =
     Inr (True, rnd (Infinite False), (RawStreamBuf ''infx'' 4)\<lparr>gptr := 3\<rparr>)"
  by (simp add: match_double_def RawStreamBuf_def strtod_defs cursor_defs eval_nat_numeral)

section \<open>The other matchers on a well-formed buffer\<close>

lemma current_in_window:
  assumes "window_ok b" and "\<not> eof b"
  shows "current b = Inr (mem b ! gptr b)"
proof -
  from assms have "gptr b < egptr b" and "gptr b < length (mem b)"
    by (auto simp: window_ok_def eof_def remaining_def in_avail_def split: if_splits)
  then show ?thesis
    by (simp add: current_def sgetc_def deref_def char_of_to_int_type)
qed

lemma advance_one:
  assumes "window_ok b" and "\<not> eof b"
  shows "advance 1 b = Inr (True, b\<lparr>gptr := gptr b + 1\<rparr>)"
proof -
  from assms(2) have "1 \<le> remaining b"
    by (simp add: eof_def)
  with assms(1) show ?thesis by (rule advance_ok)
qed

lemma advance_Suc_0:
  assumes "window_ok b" and "\<not> eof b"
  shows "advance (Suc 0) b = Inr (True, b\<lparr>gptr := Suc (gptr b)\<rparr>)"
  using advance_one [OF assms] by simp

text \<open>
  What \<open>match_literal\<close> compares on a cursor that is not at EOF: the argument
  with the folded current byte under \<open>Sensitive\<close>, the folded argument with the
  current byte under \<open>Insensitive\<close>.
\<close>

lemma match_literal_code:
  assumes "window_ok b" and "\<not> eof b"
  shows "match_literal c b cs =
    (if (if cs = Sensitive then c else tolower_char c) =
        (if cs = Insensitive then mem b ! gptr b else tolower_char (mem b ! gptr b))
     then Inr (True, b\<lparr>gptr := gptr b + 1\<rparr>)
     else Inr (False, b))"
  using assms
  by (simp add: match_literal_def current_in_window advance_Suc_0 Let_def)

text \<open>
  On a well-formed buffer \<open>match_literal\<close>, \<open>match_raw\<close> (given \<open>len\<close>
  bytes to compare with) and \<open>match_until\<close> return without a fault, also when the
  storage ends with the window: they read no byte at or past its end.
\<close>

lemma match_literal_safe:
  assumes "window_ok b"
  shows "\<exists>r b'. match_literal c b cs = Inr (r, b')"
proof (cases "eof b")
  case True
  then have "match_literal c b cs = Inr (False, b)" by (simp add: match_literal_def)
  then show ?thesis by blast
next
  case False
  with assms show ?thesis by (auto simp: match_literal_code)
qed

lemma memcmp_safe:
  "a + n \<le> length m \<Longrightarrow> i + n \<le> length pat \<Longrightarrow> \<exists>r. memcmp m a pat i n = Inr r"
proof (induction n arbitrary: a i)
  case 0
  then show ?case by simp
next
  case (Suc n)
  from Suc.prems have "a < length m" "i < length pat"
    and "(a + 1) + n \<le> length m" "(i + 1) + n \<le> length pat"
    by simp_all
  with Suc.IH [of "a + 1" "i + 1"] show ?case
    by (auto simp: deref_def)
qed

lemma match_raw_safe:
  assumes "window_ok b" and "len \<le> length buf"
  shows "\<exists>r b'. match_raw buf len b = Inr (r, b')"
proof (cases "remaining b < len")
  case True
  then have "match_raw buf len b = Inr (False, b)" by (simp add: match_raw_def)
  then show ?thesis by blast
next
  case False
  then have le: "len \<le> remaining b" by simp
  with assms(1) have "offset b + len \<le> length (mem b)"
    by (auto simp: window_ok_def remaining_def in_avail_def offset_def curptr_def split: if_splits)
  moreover from assms(2) have "0 + len \<le> length buf" by simp
  ultimately obtain r where m: "memcmp (mem b) (offset b) buf 0 len = Inr r"
    using memcmp_safe by blast
  from assms(1) le have "advance len b = Inr (True, b\<lparr>gptr := gptr b + len\<rparr>)"
    by (rule advance_ok)
  with m False show ?thesis
    by (auto simp: match_raw_def)
qed

text \<open>
  The scan of \<open>match_until\<close>, in terms of the comparison \<open>find'\<close> the code
  makes: the cursor stops at the first byte of the window that \<open>find'\<close> accepts
  and the result is true, or at the end of the window and the result is false; only the
  current pointer changes.
\<close>

declare match_until_loop.simps [simp del]

lemma match_until_loop_scan:
  "window_ok b \<Longrightarrow>
   \<exists>r g. match_until_loop chars cs b = Inr (r, b\<lparr>gptr := g\<rparr>) \<and>
     gptr b \<le> g \<and> g \<le> egptr b \<and>
     (\<forall>i. gptr b \<le> i \<and> i < g \<longrightarrow> \<not> find' cs chars (mem b ! i)) \<and>
     (if r then g < egptr b \<and> find' cs chars (mem b ! g) else g = egptr b)"
proof (induction chars cs b rule: match_until_loop.induct)
  case (1 chars cs b)
  show ?case
  proof (cases "eof b")
    case True
    with "1.prems" have "gptr b = egptr b"
      by (auto simp: eof_def remaining_def in_avail_def window_ok_def split: if_splits)
    moreover have "b\<lparr>gptr := gptr b\<rparr> = b" by simp
    moreover from True have "match_until_loop chars cs b = Inr (False, b)"
      by (subst match_until_loop.simps) simp
    ultimately show ?thesis
      by (intro exI [of _ False] exI [of _ "gptr b"]) auto
  next
    case False
    note cur = current_in_window [OF "1.prems" False]
    from "1.prems" False have lt: "gptr b < egptr b"
      by (auto simp: eof_def remaining_def in_avail_def split: if_splits)
    show ?thesis
    proof (cases "find' cs chars (mem b ! gptr b)")
      case True
      have "b\<lparr>gptr := gptr b\<rparr> = b" by simp
      moreover from False cur True have "match_until_loop chars cs b = Inr (True, b)"
        by (subst match_until_loop.simps) simp
      ultimately show ?thesis
        using lt True by (intro exI [of _ True] exI [of _ "gptr b"]) auto
    next
      case nf: False
      let ?b' = "b\<lparr>gptr := gptr b + 1\<rparr>"
      note adv = advance_one [OF "1.prems" False]
      have w': "window_ok ?b'"
        using "1.prems" lt by (simp add: window_ok_def)
      from "1.IH" [OF False cur nf adv refl w']
      obtain r g where res: "match_until_loop chars cs ?b' = Inr (r, ?b'\<lparr>gptr := g\<rparr>)"
        and lo: "gptr ?b' \<le> g" and hi: "g \<le> egptr ?b'"
        and none: "\<forall>i. gptr ?b' \<le> i \<and> i < g \<longrightarrow> \<not> find' cs chars (mem ?b' ! i)"
        and fin: "if r then g < egptr ?b' \<and> find' cs chars (mem ?b' ! g) else g = egptr ?b'"
        by blast
      have step: "match_until_loop chars cs b = match_until_loop chars cs ?b'"
        using False cur nf adv by (subst match_until_loop.simps) simp
      have "match_until_loop chars cs b = Inr (r, b\<lparr>gptr := g\<rparr>)"
        using step res by simp
      moreover have "gptr b \<le> g" using lo by simp
      moreover have "g \<le> egptr b" using hi by simp
      moreover have "\<forall>i. gptr b \<le> i \<and> i < g \<longrightarrow> \<not> find' cs chars (mem b ! i)"
      proof (intro allI impI)
        fix i assume i: "gptr b \<le> i \<and> i < g"
        show "\<not> find' cs chars (mem b ! i)"
        proof (cases "i = gptr b")
          case True
          with nf show ?thesis by simp
        next
          case False
          with i have "gptr ?b' \<le> i \<and> i < g" by simp
          with none show ?thesis by simp
        qed
      qed
      moreover have "if r then g < egptr b \<and> find' cs chars (mem b ! g) else g = egptr b"
        using fin by (cases r) simp_all
      ultimately show ?thesis by blast
    qed
  qed
qed

lemma match_until_scan:
  assumes "window_ok b"
  shows "\<exists>r g. match_until chars b cs = Inr (r, b\<lparr>gptr := g\<rparr>) \<and>
     gptr b \<le> g \<and> g \<le> egptr b \<and>
     (\<forall>i. gptr b \<le> i \<and> i < g \<longrightarrow> \<not> find' cs chars (mem b ! i)) \<and>
     (if r then g < egptr b \<and> find' cs chars (mem b ! g) else g = egptr b)"
proof (cases "eof b")
  case True
  with assms have "gptr b = egptr b"
    by (auto simp: eof_def remaining_def in_avail_def window_ok_def split: if_splits)
  moreover have "b\<lparr>gptr := gptr b\<rparr> = b" by simp
  moreover from True have "match_until chars b cs = Inr (False, b)"
    by (simp add: match_until_def)
  ultimately show ?thesis
    by (intro exI [of _ False] exI [of _ "gptr b"]) auto
next
  case False
  then have "match_until chars b cs = match_until_loop chars cs b"
    by (simp add: match_until_def)
  with match_until_loop_scan [OF assms, of chars cs] show ?thesis by simp
qed

end
